theory Spec2Isabelle
  imports Complex_Main
begin

section \<open>JavaScript numbers\<close>

text \<open>
  A JavaScript number is modelled as an exact real or one of the three special values
  of IEEE arithmetic. Rounding and the sign of zero are not modelled: finite results are
  the exact reals, and there is one zero, which divides like \<open>+0\<close>. What is modelled
  is where the special values come from and how they propagate (\<open>Math.log(0)\<close> is
  \<open>-Infinity\<close>, \<open>Infinity * 0\<close> is \<open>NaN\<close>, every comparison with \<open>NaN\<close> is false).
\<close>

datatype jsnum = Num real | PInf | NInf | NaN

fun is_finite :: "jsnum \<Rightarrow> bool" where
  "is_finite (Num x) = True"
| "is_finite PInf = False"
| "is_finite NInf = False"
| "is_finite NaN = False"

fun js_neg :: "jsnum \<Rightarrow> jsnum" where
  "js_neg (Num a) = Num (- a)"
| "js_neg PInf = NInf"
| "js_neg NInf = PInf"
| "js_neg NaN = NaN"

fun js_add :: "jsnum \<Rightarrow> jsnum \<Rightarrow> jsnum" where
  "js_add (Num a) (Num b) = Num (a + b)"
| "js_add NaN y = NaN"
| "js_add x NaN = NaN"
| "js_add PInf NInf = NaN"
| "js_add NInf PInf = NaN"
| "js_add PInf y = PInf"
| "js_add x PInf = PInf"
| "js_add NInf y = NInf"
| "js_add x NInf = NInf"

definition js_sub :: "jsnum \<Rightarrow> jsnum \<Rightarrow> jsnum" where
  "js_sub x y = js_add x (js_neg y)"

fun js_mul :: "jsnum \<Rightarrow> jsnum \<Rightarrow> jsnum" where
  "js_mul (Num a) (Num b) = Num (a * b)"
| "js_mul NaN y = NaN"
| "js_mul x NaN = NaN"
| "js_mul PInf (Num b) = (if b = 0 then NaN else if 0 < b then PInf else NInf)"
| "js_mul NInf (Num b) = (if b = 0 then NaN else if 0 < b then NInf else PInf)"
| "js_mul (Num a) PInf = (if a = 0 then NaN else if 0 < a then PInf else NInf)"
| "js_mul (Num a) NInf = (if a = 0 then NaN else if 0 < a then NInf else PInf)"
| "js_mul PInf PInf = PInf"
| "js_mul PInf NInf = NInf"
| "js_mul NInf PInf = NInf"
| "js_mul NInf NInf = PInf"

fun js_div :: "jsnum \<Rightarrow> jsnum \<Rightarrow> jsnum" where
  "js_div (Num a) (Num b) =
     (if b \<noteq> 0 then Num (a / b)
      else if a = 0 then NaN else if 0 < a then PInf else NInf)"
| "js_div NaN y = NaN"
| "js_div x NaN = NaN"
| "js_div (Num a) PInf = Num 0"
| "js_div (Num a) NInf = Num 0"
| "js_div PInf (Num b) = (if 0 \<le> b then PInf else NInf)"
| "js_div NInf (Num b) = (if 0 \<le> b then NInf else PInf)"
| "js_div PInf PInf = NaN"
| "js_div PInf NInf = NaN"
| "js_div NInf PInf = NaN"
| "js_div NInf NInf = NaN"

text \<open>The comparisons \<open><\<close>, \<open><=\<close> and \<open>===\<close>.\<close>

fun js_lt :: "jsnum \<Rightarrow> jsnum \<Rightarrow> bool" where
  "js_lt (Num a) (Num b) = (a < b)"
| "js_lt NaN y = False"
| "js_lt x NaN = False"
| "js_lt PInf y = False"
| "js_lt x NInf = False"
| "js_lt x PInf = True"
| "js_lt NInf y = True"

fun js_le :: "jsnum \<Rightarrow> jsnum \<Rightarrow> bool" where
  "js_le (Num a) (Num b) = (a \<le> b)"
| "js_le NaN y = False"
| "js_le x NaN = False"
| "js_le NInf y = True"
| "js_le x PInf = True"
| "js_le PInf y = False"
| "js_le x NInf = False"

fun js_seq :: "jsnum \<Rightarrow> jsnum \<Rightarrow> bool" where
  "js_seq NaN y = False"
| "js_seq x NaN = False"
| "js_seq x y = (x = y)"

text \<open>The functions of \<open>Math\<close> that the samplers and the engine call.\<close>

fun js_log :: "jsnum \<Rightarrow> jsnum" where
  "js_log (Num x) = (if 0 < x then Num (ln x) else if x = 0 then NInf else NaN)"
| "js_log PInf = PInf"
| "js_log NInf = NaN"
| "js_log NaN = NaN"

fun js_sqrt :: "jsnum \<Rightarrow> jsnum" where
  "js_sqrt (Num x) = (if 0 \<le> x then Num (sqrt x) else NaN)"
| "js_sqrt PInf = PInf"
| "js_sqrt NInf = NaN"
| "js_sqrt NaN = NaN"

fun js_cos :: "jsnum \<Rightarrow> jsnum" where
  "js_cos (Num x) = Num (cos x)"
| "js_cos PInf = NaN"
| "js_cos NInf = NaN"
| "js_cos NaN = NaN"

fun js_abs :: "jsnum \<Rightarrow> jsnum" where
  "js_abs (Num x) = Num \<bar>x\<bar>"
| "js_abs PInf = PInf"
| "js_abs NInf = PInf"
| "js_abs NaN = NaN"

fun js_sign :: "jsnum \<Rightarrow> jsnum" where
  "js_sign (Num x) = Num (if 0 < x then 1 else if x < 0 then - 1 else 0)"
| "js_sign PInf = Num 1"
| "js_sign NInf = Num (- 1)"
| "js_sign NaN = NaN"

fun js_max :: "jsnum \<Rightarrow> jsnum \<Rightarrow> jsnum" where
  "js_max NaN y = NaN"
| "js_max x NaN = NaN"
| "js_max x y = (if js_lt x y then y else x)"

text \<open>
  \<open>Math.pow\<close>: an exponent of \<open>NaN\<close> gives \<open>NaN\<close>, an exponent of zero gives 1 whatever
  the base; an infinite exponent compares the size of the base with 1; a negative base
  has a real power only for an integer exponent.
\<close>

definition is_integer :: "real \<Rightarrow> bool" where
  "is_integer y = (y = of_int \<lfloor>y\<rfloor>)"

definition real_pow :: "real \<Rightarrow> real \<Rightarrow> jsnum" where
  "real_pow x y =
     (if y = 0 then Num 1
      else if x = 0 then (if 0 < y then Num 0 else PInf)
      else if 0 < x then Num (x powr y)
      else if is_integer y then Num ((if odd \<lfloor>y\<rfloor> then - 1 else 1) * (\<bar>x\<bar> powr y))
      else NaN)"

fun js_pow :: "jsnum \<Rightarrow> jsnum \<Rightarrow> jsnum" where
  "js_pow x NaN = NaN"
| "js_pow x (Num y) =
     (if y = 0 then Num 1
      else (case x of
          NaN \<Rightarrow> NaN
        | PInf \<Rightarrow> (if 0 < y then PInf else Num 0)
        | NInf \<Rightarrow> (if 0 < y then (if is_integer y \<and> odd \<lfloor>y\<rfloor> then NInf else PInf) else Num 0)
        | Num a \<Rightarrow> real_pow a y))"
| "js_pow x PInf =
     (case x of
        NaN \<Rightarrow> NaN
      | Num a \<Rightarrow> (if 1 < \<bar>a\<bar> then PInf else if \<bar>a\<bar> = 1 then NaN else Num 0)
      | _ \<Rightarrow> PInf)"
| "js_pow x NInf =
     (case x of
        NaN \<Rightarrow> NaN
      | Num a \<Rightarrow> (if 1 < \<bar>a\<bar> then Num 0 else if \<bar>a\<bar> = 1 then NaN else PInf)
      | _ \<Rightarrow> Num 0)"

section \<open>The random source\<close>

text \<open>
  \<open>Math.random()\<close> is the one source of randomness. A run of the program sees a
  sequence of its results: \<open>rng n\<close> is the value of the \<open>n\<close>-th call, and every function
  that draws takes the number of calls made so far and returns it advanced. The
  contract of \<open>Math.random\<close> is that every result lies in \<open>[0, 1)\<close>.

  A function with a rejection loop may never return on a sequence that keeps being
  rejected; it is a partial function into \<open>option\<close>, and \<open>None\<close> is "does not return".
\<close>

type_synonym rng = "nat \<Rightarrow> real"

definition unit_draws :: "rng \<Rightarrow> bool" where
  "unit_draws rng = (\<forall>n. 0 \<le> rng n \<and> rng n < 1)"

section \<open>distributions.js\<close>

text \<open>
  The loop \<^verbatim>\<open>do { u = Math.random(); } while (u === 0);\<close> which \<open>normal\<close>,
  \<open>exponential\<close> and \<open>normalStandard\<close> each contain.
\<close>

partial_function (option) random_nonzero :: "rng \<Rightarrow> nat \<Rightarrow> (jsnum \<times> nat) option" where
  "random_nonzero rng i =
     (if js_seq (Num (rng i)) (Num 0) then random_nonzero rng (Suc i)
      else Some (Num (rng i), Suc i))"

definition box_muller :: "jsnum \<Rightarrow> jsnum \<Rightarrow> jsnum" where
  \<comment> \<open>\<^verbatim>\<open>Math.sqrt(-2.0 * Math.log(u1)) * Math.cos(2.0 * Math.PI * u2)\<close>\<close>
  "box_muller u1 u2 =
     js_mul (js_sqrt (js_mul (Num (- 2)) (js_log u1)))
            (js_cos (js_mul (js_mul (Num 2) (Num pi)) u2))"

definition normal :: "jsnum \<Rightarrow> rng \<Rightarrow> nat \<Rightarrow> (jsnum \<times> nat) option" where
  "normal spread rng i =
     (case random_nonzero rng i of
        None \<Rightarrow> None
      | Some (u1, j) \<Rightarrow>
          (let u2 = Num (rng j); z = box_muller u1 u2
           in Some (js_mul z spread, Suc j)))"

definition uniform :: "jsnum \<Rightarrow> rng \<Rightarrow> nat \<Rightarrow> (jsnum \<times> nat) option" where
  "uniform spread rng i =
     Some (js_mul (js_mul (js_sub (Num (rng i)) (Num (1 / 2))) (Num 2)) spread, Suc i)"

definition exponential :: "jsnum \<Rightarrow> rng \<Rightarrow> nat \<Rightarrow> (jsnum \<times> nat) option" where
  "exponential spread rng i =
     (if js_seq spread (Num 0) then Some (Num 0, i)
      else
        (let sign = (if js_lt (Num (rng i)) (Num (1 / 2)) then Num (- 1) else Num 1)
         in case random_nonzero rng (Suc i) of
              None \<Rightarrow> None
            | Some (u, j) \<Rightarrow>
                Some (js_mul sign (js_div (js_mul (js_neg (js_log u)) spread) (Num 2)), j)))"

definition laplace :: "jsnum \<Rightarrow> rng \<Rightarrow> nat \<Rightarrow> (jsnum \<times> nat) option" where
  "laplace spread rng i =
     (if js_seq spread (Num 0) then Some (Num 0, i)
      else
        (let b = js_div spread (Num (sqrt 2));
             u = js_sub (Num (rng i)) (Num (1 / 2))
         in Some (js_mul (js_mul (js_neg b) (js_sign u))
                         (js_log (js_sub (Num 1) (js_mul (Num 2) (js_abs u)))),
                  Suc i)))"

definition normalStandard :: "rng \<Rightarrow> nat \<Rightarrow> (jsnum \<times> nat) option" where
  "normalStandard rng i =
     (case random_nonzero rng i of
        None \<Rightarrow> None
      | Some (u1, j) \<Rightarrow> Some (box_muller u1 (Num (rng j)), Suc j))"

text \<open>
  \<open>gammaSample\<close>, for a shape of at least 1: the inner loop draws \<open>x\<close> until
  \<open>v = 1 + c * x\<close> is positive, the outer loop repeats until one of the two tests accepts.
\<close>

partial_function (option) gamma_draw :: "jsnum \<Rightarrow> rng \<Rightarrow> nat \<Rightarrow> (jsnum \<times> jsnum \<times> nat) option"
  where
  "gamma_draw c rng i =
     (case normalStandard rng i of
        None \<Rightarrow> None
      | Some (x, j) \<Rightarrow>
          (let v = js_add (Num 1) (js_mul c x)
           in if js_le v (Num 0) then gamma_draw c rng j else Some (x, v, j)))"

partial_function (option) gamma_loop :: "jsnum \<Rightarrow> jsnum \<Rightarrow> rng \<Rightarrow> nat \<Rightarrow> (jsnum \<times> nat) option"
  where
  "gamma_loop d c rng i =
     (case gamma_draw c rng i of
        None \<Rightarrow> None
      | Some (x, v0, j) \<Rightarrow>
          (let v = js_mul (js_mul v0 v0) v0;
               u = Num (rng j);
               x2 = js_mul x x
           in if js_lt u (js_sub (Num 1) (js_mul (js_mul (Num (331 / 10000)) x2) x2))
              then Some (js_mul d v, Suc j)
              else if js_lt (js_log u)
                        (js_add (js_mul (js_mul (Num (1 / 2)) x) x)
                                (js_mul d (js_add (js_sub (Num 1) v) (js_log v))))
              then Some (js_mul d v, Suc j)
              else gamma_loop d c rng (Suc j)))"

partial_function (option) gammaSample :: "jsnum \<Rightarrow> rng \<Rightarrow> nat \<Rightarrow> (jsnum \<times> nat) option" where
  "gammaSample shape rng i =
     (if js_lt shape (Num 1)
      then Option.bind (gammaSample (js_add shape (Num 1)) rng (Suc i))
             (\<lambda>(g, j). Some (js_mul g (js_pow (Num (rng i)) (js_div (Num 1) shape)), j))
      else
        (let d = js_sub shape (Num (1 / 3));
             c = js_div (Num 1) (js_sqrt (js_mul (Num 9) d))
         in gamma_loop d c rng i))"

definition betaSample :: "jsnum \<Rightarrow> jsnum \<Rightarrow> rng \<Rightarrow> nat \<Rightarrow> (jsnum \<times> nat) option" where
  "betaSample alpha beta_p rng i =
     (case gammaSample alpha rng i of
        None \<Rightarrow> None
      | Some (ga, j) \<Rightarrow>
          (case gammaSample beta_p rng j of
             None \<Rightarrow> None
           | Some (gb, k) \<Rightarrow> Some (js_div ga (js_add ga gb), k)))"

text \<open>
  \<open>beta(spread, alpha = 2, beta = 2)\<close>: an argument that is \<open>undefined\<close> (\<open>None\<close>) takes
  its default.
\<close>

definition beta :: "jsnum \<Rightarrow> jsnum option \<Rightarrow> jsnum option \<Rightarrow> rng \<Rightarrow> nat \<Rightarrow> (jsnum \<times> nat) option"
  where
  "beta spread alpha beta_p rng i =
     (if js_seq spread (Num 0) then Some (Num 0, i)
      else
        (case betaSample (case alpha of None \<Rightarrow> Num 2 | Some a \<Rightarrow> a)
                         (case beta_p of None \<Rightarrow> Num 2 | Some b \<Rightarrow> b) rng i of
           None \<Rightarrow> None
         | Some (x, j) \<Rightarrow> Some (js_mul (js_sub (js_mul x (Num 2)) (Num 1)) spread, j)))"

definition sampleOffset ::
  "string \<Rightarrow> jsnum \<Rightarrow> jsnum option \<Rightarrow> jsnum option \<Rightarrow> rng \<Rightarrow> nat \<Rightarrow> (jsnum \<times> nat) option"
  where
  "sampleOffset kind spread alpha betaParam rng i =
     (if kind = ''normal'' then normal spread rng i
      else if kind = ''uniform'' then uniform spread rng i
      else if kind = ''exponential'' then exponential spread rng i
      else if kind = ''laplace'' then laplace spread rng i
      else if kind = ''beta'' then beta spread alpha betaParam rng i
      else normal spread rng i)"

text \<open>
  What \<open>random_nonzero\<close> returns when it returns: the first draw from position \<open>i\<close> on
  that is not zero, and the position after it.
\<close>

definition first_nonzero_at :: "rng \<Rightarrow> nat \<Rightarrow> jsnum \<times> nat \<Rightarrow> bool" where
  "first_nonzero_at rng i r =
     (\<exists>k. i \<le> k \<and> r = (Num (rng k), Suc k) \<and> rng k \<noteq> 0 \<and> (\<forall>j. i \<le> j \<and> j < k \<longrightarrow> rng j = 0))"


section \<open>The engine and its environment\<close>

text \<open>
  \<open>constants.js\<close> is not among the source files; the four constants the engine imports
  from it are a parameter of every function that uses one.
\<close>

record constants =
  LOOKAHEAD_MS :: real
  SCHEDULE_INTERVAL_MS :: real
  LOD_CLAPPER_THRESHOLD :: real
  LOD_SAMPLE_COUNT :: nat

text \<open>
  Modelled from the spec: the values of \<open>constants.js\<close>, which is missing from the
  sources: a lookahead of 0.1 s, a tick every 25 ms, the level-of-detail threshold of
  200 clappers and the level-of-detail sample of 40.
\<close>

definition spec_constants :: constants where
  "spec_constants =
     \<lparr>LOOKAHEAD_MS = 100, SCHEDULE_INTERVAL_MS = 25,
      LOD_CLAPPER_THRESHOLD = 200, LOD_SAMPLE_COUNT = 40\<rparr>"

type_synonym audio_buffer = nat

record person =
  variantIndex :: int
  pitchFactor :: real
  volumeFactor :: real

record clap_event =
  beatTime :: jsnum
  offsetMs :: jsnum
  personIndex :: nat
  timestamp :: real

text \<open>The \<open>state\<close> object of the page, which the engine reads through \<open>this.state\<close>.\<close>

record app_state =
  playing :: bool
  bpm :: jsnum
  clapperCount :: jsnum
  spread :: jsnum
  distribution :: string
  betaAlpha :: jsnum
  betaBeta :: jsnum
  soundSource :: string
  volume :: jsnum

record audio_ctx =
  currentTime :: real
  suspended :: bool

text \<open>One call of \<open>source.start(when)\<close>, with the buffer, playback rate and gain set for it.\<close>

record emission =
  em_buffer :: audio_buffer
  playbackRate :: real
  gainValue :: jsnum
  startAt :: jsnum

text \<open>
  The fields of \<open>AudioEngine\<close>, followed by the part of the browser the engine acts on:
  the interval timers that are alive (identifier and period), the next timer
  identifier, the sounds handed to the audio graph, the reading of \<open>performance.now()\<close>,
  the number of \<open>Math.random()\<close> calls made so far and the number of calls of
  \<open>audioCtx.resume()\<close>. What the audio graph does with a start instant that is not finite
  is not modelled: the call is recorded as the engine makes it.
\<close>

record engine =
  audioCtx :: "audio_ctx option"
  schedulerTimer :: "nat option"
  clapVariants :: "audio_buffer list option"
  sampleBuffer :: "audio_buffer option"
  footstompBuffer :: "audio_buffer option"
  customBuffer :: "audio_buffer option"
  persons :: "person list"
  nextBeatTime :: jsnum
  currentBeat :: nat
  clapEvents :: "clap_event list"
  maxEvents :: nat
  state :: "app_state option"
  timers :: "(nat \<times> real) list"
  nextTimerId :: nat
  played :: "emission list"
  perfNow :: real
  rngPos :: nat
  resumeCalls :: nat

text \<open>
  A call either returns or throws: reading a property of \<open>null\<close> or \<open>undefined\<close> is an
  uncaught \<open>TypeError\<close>. Around it, \<open>option\<close> is for a call that never returns.
\<close>

datatype 'a outcome = Returns 'a | Throws

definition constructor :: engine where
  "constructor =
     \<lparr>audioCtx = None, schedulerTimer = None, clapVariants = None, sampleBuffer = None,
      footstompBuffer = None, customBuffer = None, persons = [], nextBeatTime = Num 0,
      currentBeat = 0, clapEvents = [], maxEvents = 5000, state = None,
      timers = [], nextTimerId = 1, played = [], perfNow = 0, rngPos = 0,
      resumeCalls = 0\<rparr>"

text \<open>\<open>createContext\<close>; the new context starts with the clock reading and state given.\<close>

definition createContext :: "audio_ctx \<Rightarrow> engine \<Rightarrow> engine" where
  "createContext ctx s = (case audioCtx s of Some c \<Rightarrow> s | None \<Rightarrow> s\<lparr>audioCtx := Some ctx\<rparr>)"

subsection \<open>regeneratePersons\<close>

text \<open>
  The number of rounds of \<^verbatim>\<open>for (let i = 0; i < count; i++)\<close>: the integers from 0 below
  \<open>count\<close>; none when the comparison is false at once, and no end for \<open>Infinity\<close>.
\<close>

fun for_rounds :: "jsnum \<Rightarrow> nat option" where
  "for_rounds (Num c) = Some (nat \<lceil>c\<rceil>)"
| "for_rounds PInf = None"
| "for_rounds NInf = Some 0"
| "for_rounds NaN = Some 0"

fun new_persons :: "nat \<Rightarrow> nat \<Rightarrow> rng \<Rightarrow> nat \<Rightarrow> person list" where
  "new_persons 0 numVariants rng i = []"
| "new_persons (Suc n) numVariants rng i =
     \<lparr>variantIndex = \<lfloor>rng i * real numVariants\<rfloor>,
      pitchFactor = 92 / 100 + rng (i + 1) * (16 / 100),
      volumeFactor = 6 / 10 + rng (i + 2) * (4 / 10)\<rparr>
     # new_persons n numVariants rng (i + 3)"

definition regeneratePersons :: "rng \<Rightarrow> jsnum \<Rightarrow> engine \<Rightarrow> engine option" where
  "regeneratePersons rng count s =
     (let numVariants = (case clapVariants s of Some vs \<Rightarrow> length vs | None \<Rightarrow> 1)
      in case for_rounds count of
           None \<Rightarrow> None
         | Some n \<Rightarrow>
             Some (s\<lparr>persons := new_persons n numVariants rng (rngPos s),
                     rngPos := rngPos s + 3 * n\<rparr>))"

subsection \<open>getBuffer\<close>

text \<open>Reading an array at an index: \<open>undefined\<close> (\<open>None\<close>) outside the array.\<close>

definition js_index :: "'a list \<Rightarrow> int \<Rightarrow> 'a option" where
  "js_index xs i = (if 0 \<le> i \<and> i < int (length xs) then Some (xs ! nat i) else None)"

text \<open>\<open>this.clapVariants[person.variantIndex]\<close>, where the person may be \<open>undefined\<close>.\<close>

definition variant_of :: "audio_buffer list \<Rightarrow> person option \<Rightarrow> audio_buffer option outcome"
  where
  "variant_of vs p = (case p of None \<Rightarrow> Throws | Some q \<Rightarrow> Returns (js_index vs (variantIndex q)))"

definition getBuffer :: "engine \<Rightarrow> person option \<Rightarrow> nat \<Rightarrow> audio_buffer option outcome" where
  "getBuffer s p beatNumber =
     (case state s of
        None \<Rightarrow> Throws
      | Some st \<Rightarrow>
          (let source = soundSource st in
           if source = ''queen'' then
             (let pos = beatNumber mod 4 in
              if pos = 3 then Returns None
              else if pos \<le> 1 then Returns (footstompBuffer s)
              else (case clapVariants s of
                      Some vs \<Rightarrow> variant_of vs p
                    | None \<Rightarrow> Returns None))
           else if source = ''custom'' \<and> customBuffer s \<noteq> None then Returns (customBuffer s)
           else if source = ''sample'' \<and> sampleBuffer s \<noteq> None then Returns (sampleBuffer s)
           else if source = ''footstomp'' \<and> footstompBuffer s \<noteq> None
             then Returns (footstompBuffer s)
           else (case clapVariants s of
                   Some vs \<Rightarrow> variant_of vs p
                 | None \<Rightarrow> Returns None)))"

subsection \<open>start and stop\<close>

definition start :: "constants \<Rightarrow> engine \<Rightarrow> engine" where
  "start K s =
     (case audioCtx s of
        None \<Rightarrow> s
      | Some ctx \<Rightarrow>
          (let s1 = (if suspended ctx then s\<lparr>resumeCalls := Suc (resumeCalls s)\<rparr> else s)
           in s1\<lparr>nextBeatTime := Num (currentTime ctx + 5 / 100),
                 currentBeat := 0,
                 clapEvents := [],
                 schedulerTimer := Some (nextTimerId s1),
                 timers := timers s1 @ [(nextTimerId s1, SCHEDULE_INTERVAL_MS K)],
                 nextTimerId := Suc (nextTimerId s1)\<rparr>))"

definition stop :: "engine \<Rightarrow> engine" where
  "stop s =
     (case schedulerTimer s of
        None \<Rightarrow> s
      | Some h \<Rightarrow> s\<lparr>timers := filter (\<lambda>t. fst t \<noteq> h) (timers s), schedulerTimer := None\<rparr>)"

subsection \<open>logEvent\<close>

text \<open>
  \<open>xs.slice(-n)\<close> for an integer \<open>n \<ge> 0\<close>: the last \<open>n\<close> elements, all of them when there
  are fewer; and \<open>slice(-0)\<close> is \<open>slice(0)\<close>, the whole array.
\<close>

definition slice_last :: "nat \<Rightarrow> 'a list \<Rightarrow> 'a list" where
  "slice_last n xs = (if n = 0 then xs else drop (length xs - n) xs)"

definition logEvent :: "jsnum \<Rightarrow> jsnum \<Rightarrow> nat \<Rightarrow> engine \<Rightarrow> engine" where
  "logEvent bt off pidx s =
     (let evs = clapEvents s
                @ [\<lparr>beatTime = bt, offsetMs = off, personIndex = pidx, timestamp = perfNow s\<rparr>]
      in if length evs > maxEvents s
         then s\<lparr>clapEvents := slice_last (nat \<lfloor>real (maxEvents s) * (7 / 10)\<rfloor>) evs\<rparr>
         else s\<lparr>clapEvents := evs\<rparr>)"

subsection \<open>samplePersons\<close>

text \<open>A \<open>Set\<close> keeps its elements in insertion order; adding a member changes nothing.\<close>

definition set_add :: "int list \<Rightarrow> int \<Rightarrow> int list" where
  "set_add xs x = (if x \<in> set xs then xs else xs @ [x])"

partial_function (option) sample_indices ::
  "nat \<Rightarrow> nat \<Rightarrow> rng \<Rightarrow> nat \<Rightarrow> int list \<Rightarrow> (int list \<times> nat) option" where
  "sample_indices count len rng i indices =
     (if length indices < count
      then sample_indices count len rng (Suc i) (set_add indices \<lfloor>rng i * real len\<rfloor>)
      else Some (indices, i))"

definition samplePersons :: "rng \<Rightarrow> nat \<Rightarrow> engine \<Rightarrow> (person option list \<times> engine) option"
  where
  "samplePersons rng count s =
     (let len = length (persons s) in
      if len \<le> count then Some (map Some (persons s), s)
      else (case sample_indices count len rng (rngPos s) [] of
              None \<Rightarrow> None
            | Some (indices, j) \<Rightarrow>
                Some (map (js_index (persons s)) indices, s\<lparr>rngPos := j\<rparr>)))"

subsection \<open>scheduleBeat\<close>

text \<open>\<open>xs.slice(0, end)\<close>: the end is truncated to an integer and counts from the back when negative.\<close>

fun slice_end :: "nat \<Rightarrow> jsnum \<Rightarrow> nat" where
  "slice_end len (Num x) =
     (let r = (if 0 \<le> x then \<lfloor>x\<rfloor> else \<lceil>x\<rceil>)
      in if r < 0 then nat (max (int len + r) 0) else min (nat r) len)"
| "slice_end len PInf = len"
| "slice_end len NInf = 0"
| "slice_end len NaN = 0"

text \<open>
  The level-of-detail step that opens \<open>scheduleBeat\<close>: the persons to schedule and the
  gain scale.
\<close>

definition scheduleBeat_select ::
  "constants \<Rightarrow> rng \<Rightarrow> app_state \<Rightarrow> engine \<Rightarrow> (person option list \<times> jsnum \<times> engine) option" where
  "scheduleBeat_select K rng st s =
     (if js_lt (Num (LOD_CLAPPER_THRESHOLD K)) (clapperCount st)
      then (case samplePersons rng (LOD_SAMPLE_COUNT K) s of
              None \<Rightarrow> None
            | Some (ps, s1) \<Rightarrow>
                Some (ps, js_sqrt (js_div (clapperCount st) (Num (real (LOD_SAMPLE_COUNT K)))), s1))
      else Some (map Some (take (slice_end (length (persons s)) (clapperCount st)) (persons s)),
                 Num 1, s))"

text \<open>
  The loop over \<open>personsToSchedule\<close>; \<open>pidx\<close> is the loop variable \<open>pi\<close>, and \<open>st\<close> holds the
  values read from \<open>this.state\<close> before the loop.
\<close>

fun scheduleBeat_loop ::
  "rng \<Rightarrow> app_state \<Rightarrow> jsnum \<Rightarrow> nat \<Rightarrow> jsnum \<Rightarrow> person option list \<Rightarrow> nat \<Rightarrow> engine
   \<Rightarrow> engine outcome option" where
  "scheduleBeat_loop rng st bt beatNumber gainScale [] pidx s = Some (Returns s)"
| "scheduleBeat_loop rng st bt beatNumber gainScale (p # rest) pidx s =
     (case sampleOffset (distribution st) (spread st) (Some (betaAlpha st)) (Some (betaBeta st))
             rng (rngPos s) of
        None \<Rightarrow> None
      | Some (off, j) \<Rightarrow>
          (let s1 = s\<lparr>rngPos := j\<rparr>;
               offsetSec = js_div off (Num 1000);
               clapTime = js_add bt offsetSec
           in case audioCtx s1 of
                None \<Rightarrow> Some Throws
              | Some ctx \<Rightarrow>
                  if js_lt clapTime (js_sub (Num (currentTime ctx)) (Num (1 / 10)))
                  then scheduleBeat_loop rng st bt beatNumber gainScale rest (Suc pidx) s1
                  else (case getBuffer s1 p beatNumber of
                          Throws \<Rightarrow> Some Throws
                        | Returns None \<Rightarrow>
                            scheduleBeat_loop rng st bt beatNumber gainScale rest (Suc pidx) s1
                        | Returns (Some buffer) \<Rightarrow>
                            (case p of
                               None \<Rightarrow> Some Throws
                             | Some q \<Rightarrow>
                                 (let em = \<lparr>em_buffer = buffer,
                                            playbackRate = pitchFactor q,
                                            gainValue = js_mul (Num (volumeFactor q)) gainScale,
                                            startAt = js_max clapTime (Num (currentTime ctx))\<rparr>;
                                      s2 = s1\<lparr>played := played s1 @ [em]\<rparr>;
                                      s3 = logEvent bt off pidx s2
                                  in scheduleBeat_loop rng st bt beatNumber gainScale rest
                                       (Suc pidx) s3)))))"

definition scheduleBeat :: "constants \<Rightarrow> rng \<Rightarrow> jsnum \<Rightarrow> nat \<Rightarrow> engine \<Rightarrow> engine outcome option"
  where
  "scheduleBeat K rng bt beatNumber s =
     (case state s of
        None \<Rightarrow> Some Throws
      | Some st \<Rightarrow>
          (case scheduleBeat_select K rng st s of
             None \<Rightarrow> None
           | Some (ps, gainScale, s1) \<Rightarrow>
               scheduleBeat_loop rng st bt beatNumber gainScale ps 0 s1))"

subsection \<open>schedule\<close>

partial_function (option) schedule_loop ::
  "constants \<Rightarrow> rng \<Rightarrow> jsnum \<Rightarrow> jsnum \<Rightarrow> engine \<Rightarrow> engine outcome option" where
  "schedule_loop K rng lookaheadSec beatInterval s =
     (case audioCtx s of
        None \<Rightarrow> Some Throws
      | Some ctx \<Rightarrow>
          if js_lt (nextBeatTime s) (js_add (Num (currentTime ctx)) lookaheadSec)
          then (case scheduleBeat K rng (nextBeatTime s) (currentBeat s) s of
                  None \<Rightarrow> None
                | Some Throws \<Rightarrow> Some Throws
                | Some (Returns s1) \<Rightarrow>
                    schedule_loop K rng lookaheadSec beatInterval
                      (s1\<lparr>nextBeatTime := js_add (nextBeatTime s1) beatInterval,
                          currentBeat := Suc (currentBeat s1)\<rparr>))
          else Some (Returns s))"

definition schedule :: "constants \<Rightarrow> rng \<Rightarrow> engine \<Rightarrow> engine outcome option" where
  "schedule K rng s =
     (let lookaheadSec = Num (LOOKAHEAD_MS K / 1000) in
      case state s of
        None \<Rightarrow> Some Throws
      | Some st \<Rightarrow> schedule_loop K rng lookaheadSec (js_div (Num 60) (bpm st)) s)"

section \<open>Runs of the engine\<close>

text \<open>A sequence of appends to the event log, each with the clock reading of its moment.\<close>

fun log_all :: "(jsnum \<times> jsnum \<times> nat \<times> real) list \<Rightarrow> engine \<Rightarrow> engine" where
  "log_all [] s = s"
| "log_all ((bt, off, pidx, t) # es) s = log_all es (logEvent bt off pidx (s\<lparr>perfNow := t\<rparr>))"

text \<open>
  What happens to an engine from outside: the page calls \<open>start()\<close> or \<open>stop()\<close>, the
  audio clock moves on, and an interval timer fires. A timer fires only while it is
  alive, and its callback is \<open>schedule()\<close>.
\<close>

datatype event = CallStart | CallStop | Advance real | Fire nat

definition advance :: "real \<Rightarrow> engine \<Rightarrow> engine" where
  "advance t s = s\<lparr>audioCtx := map_option (\<lambda>c. c\<lparr>currentTime := t\<rparr>) (audioCtx s)\<rparr>"

definition alive :: "nat \<Rightarrow> engine \<Rightarrow> bool" where
  "alive h s = (h \<in> fst ` set (timers s))"

fun step :: "constants \<Rightarrow> rng \<Rightarrow> event \<Rightarrow> engine \<Rightarrow> engine outcome option" where
  "step K rng CallStart s = Some (Returns (start K s))"
| "step K rng CallStop s = Some (Returns (stop s))"
| "step K rng (Advance t) s = Some (Returns (advance t s))"
| "step K rng (Fire h) s = (if alive h s then schedule K rng s else Some (Returns s))"

fun run :: "constants \<Rightarrow> rng \<Rightarrow> event list \<Rightarrow> engine \<Rightarrow> engine outcome option" where
  "run K rng [] s = Some (Returns s)"
| "run K rng (e # es) s =
     (case step K rng e s of
        None \<Rightarrow> None
      | Some Throws \<Rightarrow> Some Throws
      | Some (Returns s1) \<Rightarrow> run K rng es s1)"

text \<open>The calls of \<open>start()\<close> and \<open>stop()\<close> alone.\<close>

datatype call = Start | Stop

fun apply_call :: "constants \<Rightarrow> call \<Rightarrow> engine \<Rightarrow> engine" where
  "apply_call K Start s = start K s"
| "apply_call K Stop s = stop s"

fun run_calls :: "constants \<Rightarrow> call list \<Rightarrow> engine \<Rightarrow> engine" where
  "run_calls K [] s = s"
| "run_calls K (c # cs) s = run_calls K cs (apply_call K c s)"

text \<open>
  A sequence of calls in which \<open>start()\<close> is called only while no scheduler timer is
  held, as the play button of the page does, which calls \<open>stop()\<close> when playing and
  \<open>start()\<close> otherwise.
\<close>

fun gated :: "constants \<Rightarrow> call list \<Rightarrow> engine \<Rightarrow> bool" where
  "gated K [] s = True"
| "gated K (c # cs) s =
     ((c = Start \<longrightarrow> schedulerTimer s = None) \<and> gated K cs (apply_call K c s))"

text \<open>The scheduler holds a timer, and that timer is the only one alive.\<close>

definition running_one :: "engine \<Rightarrow> bool" where
  "running_one s = (\<exists>h. schedulerTimer s = Some h \<and> map fst (timers s) = [h])"

text \<open>No timer is held and none is alive.\<close>

definition stopped :: "engine \<Rightarrow> bool" where
  "stopped s = (schedulerTimer s = None \<and> timers s = [])"



section \<open>Predicates and sample values for the statements\<close>

text \<open>The ranges of a person generated for a pool of \<open>nv\<close> sound variants.\<close>

definition person_in_range :: "nat \<Rightarrow> person \<Rightarrow> bool" where
  "person_in_range nv p =
     (0 \<le> variantIndex p \<and> variantIndex p < int nv
      \<and> 92 / 100 \<le> pitchFactor p \<and> pitchFactor p \<le> 108 / 100
      \<and> 6 / 10 \<le> volumeFactor p \<and> volumeFactor p \<le> 1)"

text \<open>
  What a beat may change: the position in the random sequence, the sounds played and
  the event log, and nothing else.
\<close>

definition beat_frame :: "engine \<Rightarrow> engine \<Rightarrow> bool" where
  "beat_frame s s' =
     (s' = s\<lparr>rngPos := rngPos s', played := played s', clapEvents := clapEvents s'\<rparr>)"

text \<open>A tick at each of the clock readings \<open>ts\<close>: the clock moves there and timer \<open>h\<close> fires.\<close>

definition ticks :: "nat \<Rightarrow> real list \<Rightarrow> event list" where
  "ticks h ts = concat (map (\<lambda>t. [Advance t, Fire h]) ts)"


text \<open>Indices that lie inside a pool of \<open>len\<close> persons.\<close>

definition in_pool :: "nat \<Rightarrow> int list \<Rightarrow> bool" where
  "in_pool len idx = (\<forall>x \<in> set idx. 0 \<le> x \<and> x < int len)"

text \<open>
  What \<open>sample_indices\<close> returns when it returns, given draws in \<open>[0, 1)\<close> and a set so
  far of at most \<open>count\<close> distinct indices of the pool: exactly \<open>count\<close> distinct
  indices of the pool.
\<close>

definition picked :: "nat \<Rightarrow> nat \<Rightarrow> rng \<Rightarrow> nat \<Rightarrow> int list \<Rightarrow> int list \<times> nat \<Rightarrow> bool" where
  "picked count len rng i idx r =
     (unit_draws rng \<and> 0 < len \<and> distinct idx \<and> length idx \<le> count \<and> in_pool len idx
      \<longrightarrow> length (fst r) = count \<and> distinct (fst r) \<and> in_pool len (fst r))"

definition demo_person :: person where
  "demo_person = \<lparr>variantIndex = 0, pitchFactor = 1, volumeFactor = 4 / 5\<rparr>"

text \<open>
  An engine as the page sets it up: a context at clock 0, the page state at 240 BPM with
  one clapper, the uniform distribution with a spread of 0, one synthesized variant and
  one person.
\<close>

definition demo_state :: app_state where
  "demo_state =
     \<lparr>playing = False, bpm = Num 240, clapperCount = Num 1, spread = Num 0,
      distribution = ''uniform'', betaAlpha = Num 2, betaBeta = Num 2,
      soundSource = ''synth'', volume = Num 1\<rparr>"

definition demo_engine :: engine where
  "demo_engine =
     (createContext \<lparr>currentTime = 0, suspended = False\<rparr> constructor)
       \<lparr>state := Some demo_state, clapVariants := Some [7],
        persons := [demo_person]\<rparr>"

section \<open>The rejection loop\<close>

lemma random_nonzero_first:
  "rng k \<noteq> 0 \<Longrightarrow> i \<le> k \<Longrightarrow> (\<forall>j. i \<le> j \<and> j < k \<longrightarrow> rng j = 0)
   \<Longrightarrow> random_nonzero rng i = Some (Num (rng k), Suc k)"
proof (induction "k - i" arbitrary: i)
  case 0
  then have ik: "i = k" by simp
  have "random_nonzero rng k = Some (Num (rng k), Suc k)"
    using 0(2) by (simp add: random_nonzero.simps[of rng k])
  then show ?case unfolding ik .
next
  case (Suc n)
  then have lt: "i < k" by simp
  with Suc.prems have z: "rng i = 0" by simp
  have a: "n = k - Suc i" using Suc.hyps(2) by simp
  have b: "Suc i \<le> k" using lt by simp
  have c: "\<forall>j. Suc i \<le> j \<and> j < k \<longrightarrow> rng j = 0" using Suc.prems(3) by simp
  have "random_nonzero rng (Suc i) = Some (Num (rng k), Suc k)"
    by (rule Suc.hyps(1)[OF a Suc.prems(1) b c])
  then show ?case using z by (simp add: random_nonzero.simps[of rng i])
qed



lemma first_nonzero_at_here: "rng i \<noteq> 0 \<Longrightarrow> first_nonzero_at rng i (Num (rng i), Suc i)"
  unfolding first_nonzero_at_def by (intro exI[of _ i]) simp

lemma first_nonzero_at_skip:
  assumes z: "rng i = 0" and n: "first_nonzero_at rng (Suc i) r"
  shows "first_nonzero_at rng i r"
proof -
  from n obtain k where k: "Suc i \<le> k" "r = (Num (rng k), Suc k)" "rng k \<noteq> 0"
    "\<forall>j. Suc i \<le> j \<and> j < k \<longrightarrow> rng j = 0" unfolding first_nonzero_at_def by blast
  have "rng j = 0" if j: "i \<le> j \<and> j < k" for j
  proof (cases "j = i")
    case True with z show ?thesis by simp
  next
    case False with j have "Suc i \<le> j \<and> j < k" by simp
    with k(4) show ?thesis by blast
  qed
  moreover have "i \<le> k" using k(1) by simp
  ultimately show ?thesis unfolding first_nonzero_at_def using k(2,3) by blast
qed

lemma random_nonzero_Some:
  assumes "random_nonzero rng i = Some r"
  shows "first_nonzero_at rng i r"
proof (rule random_nonzero.raw_induct[where P = first_nonzero_at, OF _ assms])
  fix f :: "rng \<Rightarrow> nat \<Rightarrow> (jsnum \<times> nat) option" and g :: rng and n :: nat and y
  assume IH: "\<And>a b y. f a b = Some y \<Longrightarrow> first_nonzero_at a b y"
    and eq: "(if js_seq (Num (g n)) (Num 0) then f g (Suc n) else Some (Num (g n), Suc n)) = Some y"
  show "first_nonzero_at g n y"
  proof (cases "g n = 0")
    case True
    with eq have "f g (Suc n) = Some y" by simp
    then have "first_nonzero_at g (Suc n) y" by (rule IH)
    with True show ?thesis by (rule first_nonzero_at_skip)
  next
    case False
    with eq have "y = (Num (g n), Suc n)" by simp
    with False show ?thesis by (simp add: first_nonzero_at_here)
  qed
qed

lemma box_muller_finite:
  assumes "0 < u" "u < 1"
  shows "is_finite (box_muller (Num u) (Num w))"
proof -
  have "ln u < 0" using assms by simp
  then have "0 \<le> - 2 * ln u" by simp
  then show ?thesis using assms by (simp add: box_muller_def)
qed

lemma js_mul_finite_zero: "is_finite z \<Longrightarrow> js_mul z (Num 0) = Num 0"
  by (cases z) simp_all

lemma normal_zero_value:
  assumes "unit_draws rng" "normal (Num 0) rng i = Some (v, j)"
  shows "v = Num 0"
proof -
  from assms(2) obtain u1 j1 where r: "random_nonzero rng i = Some (u1, j1)"
    and v: "v = js_mul (box_muller u1 (Num (rng j1))) (Num 0)"
    by (auto simp: normal_def Let_def split: option.splits)
  from random_nonzero_Some[OF r] obtain k where k: "u1 = Num (rng k)" "rng k \<noteq> 0"
    unfolding first_nonzero_at_def by auto
  have "0 < rng k" "rng k < 1" using assms(1) k(2) unfolding unit_draws_def
    by (auto simp: less_le)
  then have "is_finite (box_muller u1 (Num (rng j1)))" unfolding k(1) by (rule box_muller_finite)
  then show ?thesis unfolding v by (rule js_mul_finite_zero)
qed

lemma normal_returns:
  assumes "i \<le> k" "rng k \<noteq> 0"
  shows "\<exists>v j. normal sp rng i = Some (v, j)"
proof -
  define P where "P = (\<lambda>k. i \<le> k \<and> rng k \<noteq> 0)"
  define m where "m = (LEAST k. P k)"
  have "P k" using assms by (simp add: P_def)
  then have Pm: "P m" unfolding m_def by (rule LeastI)
  have "\<forall>j. i \<le> j \<and> j < m \<longrightarrow> rng j = 0"
  proof (intro allI impI)
    fix j assume j: "i \<le> j \<and> j < m"
    then have "\<not> P j" unfolding m_def using not_less_Least by blast
    with j show "rng j = 0" by (simp add: P_def)
  qed
  with Pm have "random_nonzero rng i = Some (Num (rng m), Suc m)"
    unfolding P_def by (intro random_nonzero_first) auto
  then show ?thesis by (simp add: normal_def Let_def)
qed

lemma sampleOffset_cases:
  "sampleOffset kind sp alpha betaParam rng i = normal sp rng i
   \<or> sampleOffset kind sp alpha betaParam rng i = uniform sp rng i
   \<or> sampleOffset kind sp alpha betaParam rng i = exponential sp rng i
   \<or> sampleOffset kind sp alpha betaParam rng i = laplace sp rng i
   \<or> sampleOffset kind sp alpha betaParam rng i = beta sp alpha betaParam rng i"
  unfolding sampleOffset_def by presburger

lemma short_circuit_zero:
  "uniform (Num 0) rng i = Some (Num 0, Suc i)"
  "exponential (Num 0) rng i = Some (Num 0, i)"
  "laplace (Num 0) rng i = Some (Num 0, i)"
  "beta (Num 0) alpha betaParam rng i = Some (Num 0, i)"
  by (simp_all add: uniform_def js_sub_def exponential_def laplace_def beta_def)

lemma random_nonzero_returns:
  assumes "i \<le> k" "rng k \<noteq> 0"
  shows "\<exists>r. random_nonzero rng i = Some r"
proof -
  define P where "P = (\<lambda>k. i \<le> k \<and> rng k \<noteq> 0)"
  define m where "m = (LEAST k. P k)"
  have "P k" using assms by (simp add: P_def)
  then have Pm: "P m" unfolding m_def by (rule LeastI)
  have "\<forall>j. i \<le> j \<and> j < m \<longrightarrow> rng j = 0"
  proof (intro allI impI)
    fix j assume j: "i \<le> j \<and> j < m"
    then have "\<not> P j" unfolding m_def using not_less_Least by blast
    with j show "rng j = 0" by (simp add: P_def)
  qed
  with Pm have "random_nonzero rng i = Some (Num (rng m), Suc m)"
    unfolding P_def by (intro random_nonzero_first) auto
  then show ?thesis by blast
qed


section \<open>A spread of zero\<close>

text \<open>
  Claim C2. For every distribution name (the five named ones, and any other name, which
  falls back to \<open>normal\<close>) and every sequence of draws in \<open>[0, 1)\<close>: whenever
  \<open>sampleOffset\<close> with a spread of 0 returns, the offset is exactly 0; and it does return
  as soon as the sequence has a nonzero draw from the current position on. Only the
  rejection loop of \<open>normal\<close> needs one: \<open>uniform\<close> returns after its one draw, and
  \<open>exponential\<close>, \<open>laplace\<close> and \<open>beta\<close> return at once, without a draw.
\<close>

theorem sampleOffset_spread_zero:
  assumes "unit_draws rng"
  shows "(\<forall>v j. sampleOffset kind (Num 0) alpha betaParam rng i = Some (v, j) \<longrightarrow> v = Num 0)
       \<and> ((\<exists>k\<ge>i. rng k \<noteq> 0) \<longrightarrow>
            (\<exists>j. sampleOffset kind (Num 0) alpha betaParam rng i = Some (Num 0, j)))
       \<and> (kind = ''uniform'' \<longrightarrow>
            sampleOffset kind (Num 0) alpha betaParam rng i = Some (Num 0, Suc i))
       \<and> (kind = ''exponential'' \<or> kind = ''laplace'' \<or> kind = ''beta'' \<longrightarrow>
            sampleOffset kind (Num 0) alpha betaParam rng i = Some (Num 0, i))"
proof -
  have val: "v = Num 0" if so: "sampleOffset kind (Num 0) alpha betaParam rng i = Some (v, j)" for v j
    using sampleOffset_cases[of kind "Num 0" alpha betaParam rng i]
  proof (elim disjE)
    assume "sampleOffset kind (Num 0) alpha betaParam rng i = normal (Num 0) rng i"
    with so have "normal (Num 0) rng i = Some (v, j)" by simp
    with assms show ?thesis by (rule normal_zero_value)
  qed (use so in \<open>simp_all add: short_circuit_zero\<close>)
  have ret: "\<exists>v j. sampleOffset kind (Num 0) alpha betaParam rng i = Some (v, j)"
    if "\<exists>k\<ge>i. rng k \<noteq> 0"
  proof -
    from that obtain k where "i \<le> k" "rng k \<noteq> 0" by blast
    then have "\<exists>v j. normal (Num 0) rng i = Some (v, j)" by (rule normal_returns)
    then show ?thesis
      using sampleOffset_cases[of kind "Num 0" alpha betaParam rng i]
      by (elim disjE) (simp_all add: short_circuit_zero)
  qed
  show ?thesis
  proof (intro conjI allI impI)
    fix v j assume "sampleOffset kind (Num 0) alpha betaParam rng i = Some (v, j)"
    then show "v = Num 0" by (rule val)
  next
    assume "\<exists>k\<ge>i. rng k \<noteq> 0"
    from ret[OF this] obtain v j where vj: "sampleOffset kind (Num 0) alpha betaParam rng i = Some (v, j)"
      by blast
    from val[OF this] vj show "\<exists>j. sampleOffset kind (Num 0) alpha betaParam rng i = Some (Num 0, j)"
      by blast
  next
    assume "kind = ''uniform''"
    then show "sampleOffset kind (Num 0) alpha betaParam rng i = Some (Num 0, Suc i)"
      by (simp add: sampleOffset_def short_circuit_zero)
  next
    assume "kind = ''exponential'' \<or> kind = ''laplace'' \<or> kind = ''beta''"
    then show "sampleOffset kind (Num 0) alpha betaParam rng i = Some (Num 0, i)"
      by (auto simp: sampleOffset_def short_circuit_zero)
  qed
qed

theorem sampleOffset_spread_zero_witness:
  "unit_draws (\<lambda>n. if n = 0 then 0 else 1 / 4)
   \<and> sampleOffset ''normal'' (Num 0) None None (\<lambda>n. if n = 0 then 0 else 1 / 4) 0 = Some (Num 0, 3)"
proof -
  let ?rng = "\<lambda>n::nat. if n = 0 then 0 else 1 / 4 :: real"
  have u: "unit_draws ?rng" by (simp add: unit_draws_def)
  have nz: "\<exists>k\<ge>0. ?rng k \<noteq> 0" by (intro exI[of _ 1]) simp
  have r: "random_nonzero ?rng 0 = Some (Num (1 / 4), 2)"
    by (simp add: random_nonzero.simps[of ?rng 0] random_nonzero.simps[of ?rng "Suc 0"])
  note t = sampleOffset_spread_zero[OF u, of "''normal''" None None 0]
  from t have "(\<exists>k\<ge>0. ?rng k \<noteq> 0) \<longrightarrow>
      (\<exists>j. sampleOffset ''normal'' (Num 0) None None ?rng 0 = Some (Num 0, j))"
    by (rule conjunct2[THEN conjunct1])
  with nz obtain j where j: "sampleOffset ''normal'' (Num 0) None None ?rng 0 = Some (Num 0, j)"
    by blast
  have "\<exists>z. sampleOffset ''normal'' (Num 0) None None ?rng 0 = Some (z, 3)"
    using r by (simp add: sampleOffset_def normal_def Let_def numeral_3_eq_3)
  with j have "sampleOffset ''normal'' (Num 0) None None ?rng 0 = Some (Num 0, 3)" by auto
  with u show ?thesis by simp
qed

section \<open>The exponential sampler\<close>




section \<open>The Laplace sampler at the boundary draw\<close>

text \<open>
  Claim C10. \<open>laplace\<close> has no rejection loop: for every finite spread \<open>s > 0\<close>, when the
  draw is exactly 0 (so \<open>u = -0.5\<close> and \<open>1 - 2|u| = 0\<close>) it returns \<open>-Infinity\<close>.
\<close>

theorem laplace_boundary_draw:
  assumes "0 < s" "rng i = 0"
  shows "laplace (Num s) rng i = Some (NInf, Suc i)"
  using assms by (simp add: laplace_def Let_def js_sub_def)

theorem laplace_boundary_draw_witness:
  "(0::real) < 50 \<and> unit_draws (\<lambda>n. 0) \<and> laplace (Num 50) (\<lambda>n. 0) 0 = Some (NInf, 1)"
  using laplace_boundary_draw[of 50 "\<lambda>n. 0" 0] by (simp add: unit_draws_def)

section \<open>The event log\<close>

lemma keep_5000: "nat \<lfloor>real (5000::nat) * (7 / 10)\<rfloor> = 3500"
  by simp

lemma logEvent_maxEvents: "maxEvents (logEvent bt off pidx s) = maxEvents s"
  by (simp add: logEvent_def Let_def)

lemma logEvent_length_5000:
  assumes "maxEvents s = 5000" "length (clapEvents s) \<le> 5000"
  shows "length (clapEvents (logEvent bt off pidx s))
         = (if length (clapEvents s) = 5000 then 3500 else Suc (length (clapEvents s)))"
  using assms by (simp add: logEvent_def Let_def slice_last_def)

lemma log_all_cap:
  "maxEvents s = 5000 \<Longrightarrow> length (clapEvents s) \<le> 5000 \<Longrightarrow>
   maxEvents (log_all es s) = 5000 \<and> length (clapEvents (log_all es s)) \<le> 5000"
proof (induction es arbitrary: s)
  case Nil
  then show ?case by simp
next
  case (Cons e es)
  obtain bt off pidx t where e: "e = (bt, off, pidx, t)" by (cases e) auto
  let ?s1 = "logEvent bt off pidx (s\<lparr>perfNow := t\<rparr>)"
  have m: "maxEvents ?s1 = 5000" using Cons.prems by (simp add: logEvent_maxEvents)
  have "length (clapEvents ?s1) \<le> 5000"
    using Cons.prems logEvent_length_5000[of "s\<lparr>perfNow := t\<rparr>" bt off pidx] by simp
  with m show ?case unfolding e by (simp add: Cons.IH)
qed

text \<open>
  Claim C4. With the cap of 5000 the constructor sets, after any sequence of appends the
  log holds at most 5000 events; an append to a log of exactly 5000 trims it, and what
  remains is the most recent 3500 events (\<open>floor(5000 * 0.7)\<close>); an append to a shorter
  log adds the event at the end.
\<close>

theorem event_log_cap:
  assumes "maxEvents s = 5000" "length (clapEvents s) \<le> 5000"
  shows "length (clapEvents (log_all es s)) \<le> 5000
       \<and> (length (clapEvents (log_all es s)) = 5000 \<longrightarrow>
            clapEvents (logEvent bt off pidx (log_all es s))
              = drop 1501 (clapEvents (log_all es s)
                  @ [\<lparr>beatTime = bt, offsetMs = off, personIndex = pidx,
                      timestamp = perfNow (log_all es s)\<rparr>])
            \<and> length (clapEvents (logEvent bt off pidx (log_all es s))) = 3500)
       \<and> (length (clapEvents (log_all es s)) < 5000 \<longrightarrow>
            clapEvents (logEvent bt off pidx (log_all es s))
              = clapEvents (log_all es s)
                  @ [\<lparr>beatTime = bt, offsetMs = off, personIndex = pidx,
                      timestamp = perfNow (log_all es s)\<rparr>])"
proof -
  from log_all_cap[OF assms, of es]
  have m: "maxEvents (log_all es s) = 5000" and l: "length (clapEvents (log_all es s)) \<le> 5000"
    by simp_all
  show ?thesis using m l by (simp add: logEvent_def Let_def slice_last_def)
qed

theorem event_log_cap_witness:
  "maxEvents constructor = 5000 \<and> length (clapEvents constructor) \<le> 5000
   \<and> length (clapEvents (log_all [(Num 1, Num 0, 0, 0)] constructor)) = 1
   \<and> length (clapEvents (logEvent (Num 1) (Num 0) 0
        (constructor\<lparr>clapEvents := replicate 5000
           \<lparr>beatTime = Num 0, offsetMs = Num 0, personIndex = 0, timestamp = 0\<rparr>\<rparr>))) = 3500"
proof -
  let ?e = "\<lparr>beatTime = Num 0, offsetMs = Num 0, personIndex = 0, timestamp = 0\<rparr>"
  let ?s = "constructor\<lparr>clapEvents := replicate 5000 ?e\<rparr>"
  have a: "maxEvents ?s = 5000" "length (clapEvents ?s) \<le> 5000" by (simp_all add: constructor_def)
  have "length (clapEvents (logEvent (Num 1) (Num 0) 0 ?s)) = 3500"
    using event_log_cap[OF a, of "[]" "Num 1" "Num 0" 0] by simp
  moreover have "length (clapEvents (log_all [(Num 1, Num 0, 0, 0)] constructor)) = 1"
    by (simp add: constructor_def logEvent_def Let_def)
  ultimately show ?thesis by (simp add: constructor_def)
qed

section \<open>The person registry\<close>

lemma unit_drawsD: "unit_draws rng \<Longrightarrow> 0 \<le> rng n \<and> rng n < 1"
  unfolding unit_draws_def by blast

lemma new_persons_length: "length (new_persons n nv rng i) = n"
  by (induction n arbitrary: i) simp_all

lemma floor_unit_index:
  assumes "0 \<le> r" "r < 1" "0 < nv"
  shows "0 \<le> \<lfloor>r * real nv\<rfloor> \<and> \<lfloor>r * real nv\<rfloor> < int nv"
proof -
  have "0 \<le> r * real nv" using assms by simp
  then have a: "0 \<le> \<lfloor>r * real nv\<rfloor>" by simp
  have "r * real nv < 1 * real nv" using assms by (intro mult_strict_right_mono) simp_all
  then have "r * real nv < real_of_int (int nv)" by simp
  then have "\<lfloor>r * real nv\<rfloor> < int nv" by (simp only: floor_less_iff)
  with a show ?thesis by simp
qed

lemma new_person_in_range:
  assumes "0 \<le> a" "a < 1" "0 \<le> b" "b < 1" "0 \<le> c" "c < 1" "0 < nv"
  shows "person_in_range nv \<lparr>variantIndex = \<lfloor>a * real nv\<rfloor>,
      pitchFactor = 92 / 100 + b * (16 / 100),
      volumeFactor = 6 / 10 + c * (4 / 10)\<rparr>"
  using floor_unit_index[OF assms(1,2,7)] assms(3-6) by (simp add: person_in_range_def)

lemma new_persons_ranges:
  assumes "unit_draws rng" "0 < nv"
  shows "p \<in> set (new_persons n nv rng i) \<Longrightarrow> person_in_range nv p"
proof (induction n arbitrary: i)
  case 0
  then show ?case by simp
next
  case (Suc n)
  show ?case
  proof (cases "p \<in> set (new_persons n nv rng (i + 3))")
    case True
    then show ?thesis by (rule Suc.IH)
  next
    case False
    with Suc.prems have p: "p = \<lparr>variantIndex = \<lfloor>rng i * real nv\<rfloor>,
      pitchFactor = 92 / 100 + rng (i + 1) * (16 / 100),
      volumeFactor = 6 / 10 + rng (i + 2) * (4 / 10)\<rparr>" by simp
    show ?thesis unfolding p
      using unit_drawsD[OF assms(1), of i] unit_drawsD[OF assms(1), of "i + 1"]
        unit_drawsD[OF assms(1), of "i + 2"] assms(2)
      by (intro new_person_in_range) simp_all
  qed
qed

text \<open>
  Claim C7. For every count \<open>n\<close> (a non-negative integer) and every sequence of draws in
  \<open>[0, 1)\<close>, \<open>regeneratePersons(n)\<close> returns, and the pool it leaves is made of the draws
  alone (the old pool is gone): exactly \<open>n\<close> persons, each with an integer
  \<open>variantIndex\<close> from 0 below the number of variants, a \<open>pitchFactor\<close> in
  \<open>[0.92, 1.08]\<close> and a \<open>volumeFactor\<close> in \<open>[0.6, 1.0]\<close>. The number of variants is the
  length of \<open>clapVariants\<close>, or 1 when there are none; the variant array is not empty.
\<close>

theorem regeneratePersons_pool:
  assumes "unit_draws rng" "clapVariants s \<noteq> Some []"
  shows "\<exists>s'. regeneratePersons rng (Num (real n)) s = Some s'
           \<and> persons s' = new_persons n (case clapVariants s of Some vs \<Rightarrow> length vs | None \<Rightarrow> 1)
                             rng (rngPos s)
           \<and> length (persons s') = n
           \<and> (\<forall>p \<in> set (persons s').
                 0 \<le> variantIndex p
                 \<and> variantIndex p < int (case clapVariants s of Some vs \<Rightarrow> length vs | None \<Rightarrow> 1)
                 \<and> 92 / 100 \<le> pitchFactor p \<and> pitchFactor p \<le> 108 / 100
                 \<and> 6 / 10 \<le> volumeFactor p \<and> volumeFactor p \<le> 1)"
proof -
  let ?nv = "case clapVariants s of Some vs \<Rightarrow> length vs | None \<Rightarrow> 1"
  have nv: "0 < ?nv" using assms(2) by (cases "clapVariants s") auto
  let ?s' = "s\<lparr>persons := new_persons n ?nv rng (rngPos s), rngPos := rngPos s + 3 * n\<rparr>"
  have r: "regeneratePersons rng (Num (real n)) s = Some ?s'"
    by (simp add: regeneratePersons_def Let_def)
  have "\<forall>p \<in> set (persons ?s'). person_in_range ?nv p"
    using new_persons_ranges[OF assms(1) nv] by simp
  then show ?thesis unfolding r person_in_range_def
    by (intro exI[of _ ?s']) (simp add: new_persons_length)
qed

theorem regeneratePersons_pool_witness:
  "unit_draws (\<lambda>n. 1 / 2) \<and> clapVariants constructor \<noteq> Some []
   \<and> map_option persons (regeneratePersons (\<lambda>n. 1 / 2) (Num 2) constructor)
     = Some [\<lparr>variantIndex = 0, pitchFactor = 1, volumeFactor = 4 / 5\<rparr>,
             \<lparr>variantIndex = 0, pitchFactor = 1, volumeFactor = 4 / 5\<rparr>]"
proof -
  have u: "unit_draws (\<lambda>n. 1 / 2)" by (simp add: unit_draws_def)
  have c: "clapVariants constructor \<noteq> Some []" by (simp add: constructor_def)
  from regeneratePersons_pool[OF u c, of 2]
  obtain s' where "regeneratePersons (\<lambda>n. 1 / 2) (Num (real 2)) constructor = Some s'"
    and "persons s' = new_persons 2 (case clapVariants constructor of Some vs \<Rightarrow> length vs | None \<Rightarrow> 1)
                             (\<lambda>n. 1 / 2) (rngPos constructor)"
    by blast
  then have "map_option persons (regeneratePersons (\<lambda>n. 1 / 2) (Num 2) constructor)
     = Some (new_persons 2 1 (\<lambda>n. 1 / 2) 0)" by (simp add: constructor_def)
  also have "new_persons 2 1 (\<lambda>n. 1 / 2) 0
     = [\<lparr>variantIndex = 0, pitchFactor = 1, volumeFactor = 4 / 5\<rparr>,
        \<lparr>variantIndex = 0, pitchFactor = 1, volumeFactor = 4 / 5\<rparr>]"
    by (simp add: numeral_2_eq_2)
  finally show ?thesis using u c by simp
qed

section \<open>Starting and stopping\<close>

lemma stopped_start:
  "stopped s \<Longrightarrow> stopped (start K s) \<or> running_one (start K s)"
  by (cases "audioCtx s") (auto simp: stopped_def running_one_def start_def Let_def)

lemma stop_stopped: "stopped s \<or> running_one s \<Longrightarrow> stopped (stop s)"
  by (auto simp: stopped_def running_one_def stop_def Cons_eq_map_conv)

lemma one_timer: "stopped s \<or> running_one s \<Longrightarrow> length (timers s) \<le> 1"
proof (elim disjE)
  assume "running_one s"
  then obtain h where "map fst (timers s) = [h]" by (auto simp: running_one_def)
  then have "length (map fst (timers s)) = 1" by simp
  then show ?thesis by simp
qed (simp add: stopped_def)

lemma gated_step:
  assumes "stopped s \<or> running_one s" "c = Start \<longrightarrow> schedulerTimer s = None"
  shows "stopped (apply_call K c s) \<or> running_one (apply_call K c s)"
proof (cases c)
  case Start
  with assms(2) have "schedulerTimer s = None" by simp
  with assms(1) have "stopped s" by (auto simp: running_one_def)
  with Start show ?thesis by (simp add: stopped_start)
next
  case Stop
  with assms(1) show ?thesis by (simp add: stop_stopped)
qed

lemma gated_invariant:
  "stopped s \<or> running_one s \<Longrightarrow> gated K cs s \<Longrightarrow>
   stopped (run_calls K cs s) \<or> running_one (run_calls K cs s)"
proof (induction cs arbitrary: s)
  case Nil
  then show ?case by simp
next
  case (Cons c cs)
  from Cons.prems have g: "c = Start \<longrightarrow> schedulerTimer s = None" "gated K cs (apply_call K c s)"
    by simp_all
  from gated_step[OF Cons.prems(1) g(1)] have "stopped (apply_call K c s) \<or> running_one (apply_call K c s)" .
  from Cons.IH[OF this g(2)] show ?case by simp
qed

lemma gated_take: "gated K cs s \<Longrightarrow> gated K (take n cs) s"
proof (induction cs arbitrary: s n)
  case Nil
  then show ?case by simp
next
  case (Cons c cs)
  then show ?case by (cases n) simp_all
qed

lemma run_calls_append: "run_calls K (cs @ ds) s = run_calls K ds (run_calls K cs s)"
  by (induction cs arbitrary: s) simp_all

lemma gated_append: "gated K (cs @ ds) s \<Longrightarrow> gated K cs s"
  by (induction cs arbitrary: s) simp_all

lemma gated_ends_stop:
  assumes "stopped s \<or> running_one s" "gated K cs s" "cs \<noteq> []" "last cs = Stop"
  shows "stopped (run_calls K cs s)"
proof -
  from assms(3,4) have cs: "cs = butlast cs @ [Stop]" by (metis append_butlast_last_id)
  have "gated K (butlast cs) s" using assms(2) cs gated_append by metis
  from gated_invariant[OF assms(1) this]
  have "stopped (stop (run_calls K (butlast cs) s))" by (rule stop_stopped)
  moreover have "run_calls K cs s = stop (run_calls K (butlast cs) s)"
    by (subst cs) (simp add: run_calls_append)
  ultimately show ?thesis by simp
qed

theorem double_start_leaks_timer:
  "schedulerTimer (start spec_constants demo_engine) = Some 1
   \<and> map fst (timers (start spec_constants (start spec_constants demo_engine))) = [1, 2]
   \<and> map fst (timers (run_calls spec_constants [Start, Start, Stop] demo_engine)) = [1]"
  by (simp add: demo_engine_def constructor_def createContext_def start_def stop_def Let_def)

text \<open>
  Claim C1, as amended. \<open>start()\<close> has no guard: called while a timer is held it
  installs a second timer and forgets the first (the theorem before this one). When
  \<open>start()\<close> is called only while no timer is held, which is how the play button calls
  it, then from an engine that is stopped or runs on one timer, at no point of the
  sequence of calls are two timers alive, and after a sequence that ends in \<open>stop()\<close>
  none is alive.
\<close>

theorem gated_calls_one_timer:
  assumes "stopped s \<or> running_one s" "gated K cs s"
  shows "(\<forall>n. length (timers (run_calls K (take n cs) s)) \<le> 1)
       \<and> (cs \<noteq> [] \<and> last cs = Stop \<longrightarrow> timers (run_calls K cs s) = [])"
proof (intro conjI allI impI)
  fix n
  have "gated K (take n cs) s" using assms(2) by (rule gated_take)
  from gated_invariant[OF assms(1) this] show "length (timers (run_calls K (take n cs) s)) \<le> 1"
    by (rule one_timer)
next
  assume "cs \<noteq> [] \<and> last cs = Stop"
  then have "stopped (run_calls K cs s)" using gated_ends_stop[OF assms] by simp
  then show "timers (run_calls K cs s) = []" by (simp add: stopped_def)
qed

theorem gated_calls_one_timer_witness:
  "(stopped demo_engine \<or> running_one demo_engine)
   \<and> gated spec_constants [Start, Stop, Start, Stop] demo_engine
   \<and> length (timers (run_calls spec_constants (take 3 [Start, Stop, Start, Stop]) demo_engine)) \<le> 1
   \<and> timers (run_calls spec_constants [Start, Stop, Start, Stop] demo_engine) = []"
proof -
  have a: "stopped demo_engine \<or> running_one demo_engine"
    by (simp add: stopped_def demo_engine_def constructor_def createContext_def)
  have g: "gated spec_constants [Start, Stop, Start, Stop] demo_engine"
    by (simp add: demo_engine_def constructor_def createContext_def start_def stop_def Let_def)
  note t = gated_calls_one_timer[OF a g]
  from t have "length (timers (run_calls spec_constants (take 3 [Start, Stop, Start, Stop]) demo_engine)) \<le> 1"
    by blast
  moreover from t have "timers (run_calls spec_constants [Start, Stop, Start, Stop] demo_engine) = []"
    by simp
  ultimately show ?thesis using a g by blast
qed

lemma stop_running_one:
  assumes "running_one s"
  shows "stop s = s\<lparr>timers := [], schedulerTimer := None\<rparr>"
proof -
  from assms obtain h where h: "schedulerTimer s = Some h" "map fst (timers s) = [h]"
    by (auto simp: running_one_def)
  from h(2) obtain x where "timers s = [(h, x)]" by (cases "timers s") auto
  with h(1) show ?thesis by (simp add: stop_def)
qed

lemma step_while_stopped:
  assumes "stopped s" "e \<noteq> CallStart"
  shows "\<exists>s'. step K rng e s = Some (Returns s') \<and> stopped s'
           \<and> nextBeatTime s' = nextBeatTime s \<and> currentBeat s' = currentBeat s
           \<and> clapEvents s' = clapEvents s"
proof (cases e)
  case CallStart
  with assms(2) show ?thesis by simp
next
  case CallStop
  with assms(1) show ?thesis by (simp add: stopped_def stop_def)
next
  case (Advance t)
  with assms(1) show ?thesis by (simp add: stopped_def advance_def)
next
  case (Fire h)
  with assms(1) show ?thesis by (simp add: stopped_def alive_def)
qed

lemma run_while_stopped:
  "stopped s \<Longrightarrow> CallStart \<notin> set es \<Longrightarrow>
   \<exists>s'. run K rng es s = Some (Returns s') \<and> stopped s'
        \<and> nextBeatTime s' = nextBeatTime s \<and> currentBeat s' = currentBeat s
        \<and> clapEvents s' = clapEvents s"
proof (induction es arbitrary: s)
  case Nil
  then show ?case by simp
next
  case (Cons e es)
  from Cons.prems have ne: "e \<noteq> CallStart" and rest: "CallStart \<notin> set es" by auto
  from step_while_stopped[OF Cons.prems(1) ne, of K rng]
  obtain s1 where s1: "step K rng e s = Some (Returns s1)" "stopped s1"
    "nextBeatTime s1 = nextBeatTime s" "currentBeat s1 = currentBeat s"
    "clapEvents s1 = clapEvents s" by blast
  from Cons.IH[OF s1(2) rest]
  obtain s' where "run K rng es s1 = Some (Returns s')" "stopped s'"
    "nextBeatTime s' = nextBeatTime s1" "currentBeat s' = currentBeat s1"
    "clapEvents s' = clapEvents s1" by blast
  with s1 show ?case by simp
qed

lemma stop_only_timers:
  "stop t = t\<lparr>timers := timers (stop t), schedulerTimer := schedulerTimer (stop t)\<rparr>"
  by (cases "schedulerTimer t") (simp_all add: stop_def)

lemma stop_keeps_transport:
  "nextBeatTime (stop t) = nextBeatTime t" "currentBeat (stop t) = currentBeat t"
  "clapEvents (stop t) = clapEvents t"
  by (cases "schedulerTimer t"; simp add: stop_def)+

lemma stop_settled:
  assumes "stopped s \<or> running_one s"
  shows "stop s = s\<lparr>timers := [], schedulerTimer := None\<rparr>"
  using assms
proof
  assume "stopped s"
  then show ?thesis by (simp add: stopped_def stop_def)
next
  assume "running_one s"
  then show ?thesis by (rule stop_running_one)
qed

text \<open>
  Claim C9. \<open>stop()\<close>, in any state \<open>t\<close>, changes nothing but the timer table and the
  handle: \<open>nextBeatTime\<close>, \<open>currentBeat\<close> and the event log are what they were. In every
  state the scheduler reaches from a stopped engine by calls of \<open>start()\<close> and \<open>stop()\<close>
  in which \<open>start()\<close> is called only while no timer is held, \<open>stop()\<close> leaves no timer
  alive, and nothing that happens before the next \<open>start()\<close> (the clock moving on, any
  timer identifier firing, further calls of \<open>stop()\<close>) changes the three: every such run
  returns with them as they were before \<open>stop()\<close>.
\<close>

theorem stop_frame:
  assumes "stopped s0 \<or> running_one s0" "gated K cs s0" "CallStart \<notin> set es"
  shows "nextBeatTime (stop t) = nextBeatTime t \<and> currentBeat (stop t) = currentBeat t
       \<and> clapEvents (stop t) = clapEvents t
       \<and> stop t = t\<lparr>timers := timers (stop t), schedulerTimer := schedulerTimer (stop t)\<rparr>
       \<and> stop (run_calls K cs s0) = (run_calls K cs s0)\<lparr>timers := [], schedulerTimer := None\<rparr>
       \<and> (\<exists>s'. run K rng es (stop (run_calls K cs s0)) = Some (Returns s')
              \<and> nextBeatTime s' = nextBeatTime (run_calls K cs s0)
              \<and> currentBeat s' = currentBeat (run_calls K cs s0)
              \<and> clapEvents s' = clapEvents (run_calls K cs s0))"
proof -
  let ?s = "run_calls K cs s0"
  have inv: "stopped ?s \<or> running_one ?s" using assms(1,2) by (rule gated_invariant)
  then have st: "stop ?s = ?s\<lparr>timers := [], schedulerTimer := None\<rparr>" by (rule stop_settled)
  have "stopped (stop ?s)" using inv by (rule stop_stopped)
  from run_while_stopped[OF this assms(3), of K rng]
  obtain s' where "run K rng es (stop ?s) = Some (Returns s')"
    "nextBeatTime s' = nextBeatTime (stop ?s)" "currentBeat s' = currentBeat (stop ?s)"
    "clapEvents s' = clapEvents (stop ?s)" by blast
  then have "\<exists>s'. run K rng es (stop ?s) = Some (Returns s')
              \<and> nextBeatTime s' = nextBeatTime ?s \<and> currentBeat s' = currentBeat ?s
              \<and> clapEvents s' = clapEvents ?s"
    by (simp add: stop_keeps_transport)
  with st stop_only_timers[of t] stop_keeps_transport[of t] show ?thesis by blast
qed

lemma demo_started:
  "start spec_constants demo_engine
   = demo_engine\<lparr>nextBeatTime := Num (5 / 100), currentBeat := 0, clapEvents := [],
       schedulerTimer := Some 1, timers := [(1, 25)], nextTimerId := 2\<rparr>"
  by (simp add: demo_engine_def constructor_def createContext_def start_def Let_def
      spec_constants_def)

theorem stop_frame_witness:
  "(stopped demo_engine \<or> running_one demo_engine) \<and> gated spec_constants [Start] demo_engine
   \<and> CallStart \<notin> set [Advance 1, Fire 1, CallStop]
   \<and> schedulerTimer (run_calls spec_constants [Start] demo_engine) = Some 1
   \<and> map_option (map_outcome (\<lambda>s. (nextBeatTime s, currentBeat s, clapEvents s)))
        (run spec_constants (\<lambda>n. 0) [Advance 1, Fire 1, CallStop]
           (stop (run_calls spec_constants [Start] demo_engine)))
      = Some (Returns (Num (5 / 100), 0, []))"
proof -
  have a: "stopped demo_engine \<or> running_one demo_engine"
    by (simp add: stopped_def demo_engine_def constructor_def createContext_def)
  have g: "gated spec_constants [Start] demo_engine"
    by (simp add: demo_engine_def constructor_def createContext_def)
  have e: "CallStart \<notin> set [Advance 1, Fire 1, CallStop]" by simp
  have f: "nextBeatTime (run_calls spec_constants [Start] demo_engine) = Num (5 / 100)"
    "currentBeat (run_calls spec_constants [Start] demo_engine) = 0"
    "clapEvents (run_calls spec_constants [Start] demo_engine) = []"
    "schedulerTimer (run_calls spec_constants [Start] demo_engine) = Some 1"
    by (simp_all add: demo_started)
  from stop_frame[OF a g e, of _ "\<lambda>n. 0"]
  obtain s' where "run spec_constants (\<lambda>n. 0) [Advance 1, Fire 1, CallStop]
           (stop (run_calls spec_constants [Start] demo_engine)) = Some (Returns s')"
     "nextBeatTime s' = nextBeatTime (run_calls spec_constants [Start] demo_engine)"
     "currentBeat s' = currentBeat (run_calls spec_constants [Start] demo_engine)"
     "clapEvents s' = clapEvents (run_calls spec_constants [Start] demo_engine)"
    by blast
  with f a g e show ?thesis by simp
qed

section \<open>What a beat leaves unchanged\<close>






lemma played_frame: "beat_frame s (s\<lparr>played := es\<rparr>)"
  by (simp add: beat_frame_def)







section \<open>Draining the lookahead window\<close>





lemma ticks_simps [simp]:
  "ticks h [] = []"
  "ticks h (t # ts) = Advance t # Fire h # ticks h ts"
  by (simp_all add: ticks_def)























section \<open>One person of a beat\<close>






section \<open>The level-of-detail selection\<close>

lemma set_add_set: "set (set_add xs x) = insert x (set xs)"
  by (auto simp: set_add_def)

lemma set_add_distinct: "distinct xs \<Longrightarrow> distinct (set_add xs x)"
  by (simp add: set_add_def)

lemma set_add_length: "length (set_add xs x) \<le> Suc (length xs)"
  by (simp add: set_add_def)

lemma set_add_in_pool:
  assumes "in_pool len xs" "0 \<le> r" "r < 1" "0 < len"
  shows "in_pool len (set_add xs \<lfloor>r * real len\<rfloor>)"
  using assms floor_unit_index[OF assms(2,3,4)] by (auto simp: in_pool_def set_add_set)

lemma sample_indices_picked:
  assumes "sample_indices count len rng i idx = Some r"
  shows "picked count len rng i idx r"
proof (rule sample_indices.raw_induct[where P = picked, OF _ assms])
  fix f :: "nat \<Rightarrow> nat \<Rightarrow> rng \<Rightarrow> nat \<Rightarrow> int list \<Rightarrow> (int list \<times> nat) option"
    and c l :: nat and g :: rng and k :: nat and xs :: "int list" and y
  assume IH: "\<And>a b c d e y. f a b c d e = Some y \<Longrightarrow> picked a b c d e y"
    and eq: "(if length xs < c then f c l g (Suc k) (set_add xs \<lfloor>g k * real l\<rfloor>)
              else Some (xs, k)) = Some y"
  show "picked c l g k xs y"
  proof (cases "length xs < c")
    case True
    with eq have "f c l g (Suc k) (set_add xs \<lfloor>g k * real l\<rfloor>) = Some y" by simp
    from IH[OF this] have p: "picked c l g (Suc k) (set_add xs \<lfloor>g k * real l\<rfloor>) y" .
    show ?thesis unfolding picked_def
    proof (intro impI)
      assume a: "unit_draws g \<and> 0 < l \<and> distinct xs \<and> length xs \<le> c \<and> in_pool l xs"
      have "0 \<le> g k" "g k < 1" using a unit_drawsD[of g k] by simp_all
      with a have "in_pool l (set_add xs \<lfloor>g k * real l\<rfloor>)" by (intro set_add_in_pool) simp_all
      moreover have "distinct (set_add xs \<lfloor>g k * real l\<rfloor>)" using a by (simp add: set_add_distinct)
      moreover have "length (set_add xs \<lfloor>g k * real l\<rfloor>) \<le> c"
        using True set_add_length[of xs "\<lfloor>g k * real l\<rfloor>"] by simp
      ultimately show "length (fst y) = c \<and> distinct (fst y) \<and> in_pool l (fst y)"
        using p a unfolding picked_def by blast
    qed
  next
    case False
    with eq have "y = (xs, k)" by simp
    with False show ?thesis by (auto simp: picked_def)
  qed
qed

lemma sample_indices_returns:
  "distinct idx \<Longrightarrow>
   count \<le> card (set idx \<union> (\<lambda>j. \<lfloor>rng j * real len\<rfloor>) ` {i..<i + n}) \<Longrightarrow>
   \<exists>r. sample_indices count len rng i idx = Some r"
proof (induction n arbitrary: i idx)
  case 0
  then have "count \<le> length idx" by (simp add: distinct_card)
  then show ?case by (simp add: sample_indices.simps[of count len rng i idx])
next
  case (Suc n)
  show ?case
  proof (cases "length idx < count")
    case False
    then show ?thesis by (simp add: sample_indices.simps[of count len rng i idx])
  next
    case True
    let ?x = "\<lfloor>rng i * real len\<rfloor>"
    have "{i..<i + Suc n} = insert i {Suc i..<Suc i + n}" by auto
    then have "set idx \<union> (\<lambda>j. \<lfloor>rng j * real len\<rfloor>) ` {i..<i + Suc n}
        = set (set_add idx ?x) \<union> (\<lambda>j. \<lfloor>rng j * real len\<rfloor>) ` {Suc i..<Suc i + n}"
      by (simp add: set_add_set)
    with Suc.prems(2)
    have c: "count \<le> card (set (set_add idx ?x) \<union> (\<lambda>j. \<lfloor>rng j * real len\<rfloor>) ` {Suc i..<Suc i + n})"
      by simp
    have d: "distinct (set_add idx ?x)" using Suc.prems(1) by (rule set_add_distinct)
    from Suc.IH[OF d c] True show ?thesis
      by (simp add: sample_indices.simps[of count len rng i idx])
  qed
qed

lemma js_index_in_pool:
  "in_pool (length xs) idx \<Longrightarrow> map (js_index xs) idx = map (\<lambda>x. Some (xs ! nat x)) idx"
  by (simp add: in_pool_def js_index_def)

lemma samplePersons_whole:
  "length (persons s) \<le> count \<Longrightarrow> samplePersons rng count s = Some (map Some (persons s), s)"
  by (simp add: samplePersons_def)

lemma samplePersons_distinct:
  assumes u: "unit_draws rng" and c: "count < length (persons s)"
    and r: "samplePersons rng count s = Some (ps, s')"
  shows "\<exists>idx. length idx = count \<and> distinct idx \<and> in_pool (length (persons s)) idx
           \<and> ps = map (\<lambda>x. Some (persons s ! nat x)) idx"
proof -
  from r c obtain idx j where
    si: "sample_indices count (length (persons s)) rng (rngPos s) [] = Some (idx, j)"
    and ps: "ps = map (js_index (persons s)) idx"
    by (auto simp: samplePersons_def Let_def split: option.splits)
  have "0 < length (persons s)" using c by linarith
  with sample_indices_picked[OF si] u
  have p: "length idx = count" "distinct idx" "in_pool (length (persons s)) idx"
    by (simp_all add: picked_def in_pool_def)
  from js_index_in_pool[OF p(3)] ps have "ps = map (\<lambda>x. Some (persons s ! nat x)) idx" by simp
  with p show ?thesis by blast
qed

lemma samplePersons_returns:
  assumes "count < length (persons s)"
    "count \<le> card ((\<lambda>j. \<lfloor>rng j * real (length (persons s))\<rfloor>) ` {rngPos s..<rngPos s + n})"
  shows "\<exists>r. samplePersons rng count s = Some r"
proof -
  have "\<exists>r. sample_indices count (length (persons s)) rng (rngPos s) [] = Some r"
    by (rule sample_indices_returns[where n = n]) (use assms(2) in simp_all)
  then show ?thesis using assms(1) by (auto simp: samplePersons_def Let_def)
qed

lemma select_below_threshold:
  "\<not> js_lt (Num (LOD_CLAPPER_THRESHOLD K)) (clapperCount st) \<Longrightarrow>
   scheduleBeat_select K rng st s
   = Some (map Some (take (slice_end (length (persons s)) (clapperCount st)) (persons s)), Num 1, s)"
  by (simp add: scheduleBeat_select_def)

lemma select_above_threshold:
  "js_lt (Num (LOD_CLAPPER_THRESHOLD K)) (clapperCount st) \<Longrightarrow>
   scheduleBeat_select K rng st s
   = map_option (\<lambda>(ps, s'). (ps, js_sqrt (js_div (clapperCount st) (Num (real (LOD_SAMPLE_COUNT K)))), s'))
       (samplePersons rng (LOD_SAMPLE_COUNT K) s)"
  by (simp add: scheduleBeat_select_def split: option.splits)

text \<open>
  A pool of 100 persons with \<open>clapperCount = 100\<close> is above the sample count of 40 and
  below the threshold of 200: all 100 persons are scheduled, with gain scale 1.
\<close>

theorem lod_skips_mid_size_pool:
  "scheduleBeat_select spec_constants (\<lambda>n. 0) (demo_state\<lparr>clapperCount := Num 100\<rparr>)
     (demo_engine\<lparr>persons := replicate 100 demo_person\<rparr>)
   = Some (map Some (replicate 100 demo_person), Num 1,
           demo_engine\<lparr>persons := replicate 100 demo_person\<rparr>)
   \<and> LOD_SAMPLE_COUNT spec_constants < length (replicate 100 demo_person)
   \<and> length (map Some (replicate 100 demo_person)) = 100"
  by (simp add: scheduleBeat_select_def spec_constants_def)

text \<open>
  Claim C3, as amended. \<open>samplePersons(count)\<close> returns the whole pool when the pool has
  at most \<open>count\<close> persons; otherwise, whenever it returns, it returns the persons at
  exactly \<open>count\<close> pairwise distinct indices of the pool, and it returns as soon as the
  draws have hit \<open>count\<close> different indices. The gain scale is set by \<open>scheduleBeat\<close>:
  when \<open>clapperCount\<close> does not exceed \<open>LOD_CLAPPER_THRESHOLD\<close> the persons scheduled are
  \<open>persons.slice(0, clapperCount)\<close> with gain scale 1, and no sampling takes place; when
  it does, they are \<open>samplePersons(LOD_SAMPLE_COUNT)\<close> with gain scale
  \<open>sqrt(clapperCount / LOD_SAMPLE_COUNT)\<close>. With 500 persons, \<open>clapperCount = 500\<close>, the
  threshold 200 and the sample count 40: 40 persons at distinct indices and a gain
  scale of \<open>sqrt(500 / 40)\<close>.
\<close>

theorem lod_selection:
  assumes "unit_draws rng"
  shows "(length (persons s) \<le> count \<longrightarrow>
            samplePersons rng count s = Some (map Some (persons s), s))
       \<and> (count < length (persons s) \<longrightarrow>
            (\<forall>ps s'. samplePersons rng count s = Some (ps, s') \<longrightarrow>
               (\<exists>idx. length idx = count \<and> distinct idx \<and> in_pool (length (persons s)) idx
                  \<and> ps = map (\<lambda>x. Some (persons s ! nat x)) idx))
            \<and> (\<forall>n. count \<le> card ((\<lambda>j. \<lfloor>rng j * real (length (persons s))\<rfloor>)
                                     ` {rngPos s..<rngPos s + n})
                 \<longrightarrow> (\<exists>r. samplePersons rng count s = Some r)))
       \<and> (\<not> js_lt (Num (LOD_CLAPPER_THRESHOLD K)) (clapperCount st) \<longrightarrow>
            scheduleBeat_select K rng st s
            = Some (map Some (take (slice_end (length (persons s)) (clapperCount st)) (persons s)),
                    Num 1, s))
       \<and> (js_lt (Num (LOD_CLAPPER_THRESHOLD K)) (clapperCount st) \<longrightarrow>
            scheduleBeat_select K rng st s
            = map_option
                (\<lambda>(ps, s'). (ps, js_sqrt (js_div (clapperCount st) (Num (real (LOD_SAMPLE_COUNT K)))), s'))
                (samplePersons rng (LOD_SAMPLE_COUNT K) s))
       \<and> (length (persons s) = 500 \<and> clapperCount st = Num 500 \<longrightarrow>
            (\<forall>ps g s'. scheduleBeat_select spec_constants rng st s = Some (ps, g, s') \<longrightarrow>
               length ps = 40 \<and> g = Num (sqrt (500 / 40))
               \<and> (\<exists>idx. distinct idx \<and> in_pool 500 idx
                     \<and> ps = map (\<lambda>x. Some (persons s ! nat x)) idx)))"
proof (intro conjI allI impI)
  assume "length (persons s) \<le> count"
  then show "samplePersons rng count s = Some (map Some (persons s), s)"
    by (rule samplePersons_whole)
next
  fix ps s'
  assume "count < length (persons s)" "samplePersons rng count s = Some (ps, s')"
  with assms show "\<exists>idx. length idx = count \<and> distinct idx \<and> in_pool (length (persons s)) idx
      \<and> ps = map (\<lambda>x. Some (persons s ! nat x)) idx"
    by (rule samplePersons_distinct)
next
  fix n
  assume "count < length (persons s)"
    "count \<le> card ((\<lambda>j. \<lfloor>rng j * real (length (persons s))\<rfloor>) ` {rngPos s..<rngPos s + n})"
  then show "\<exists>r. samplePersons rng count s = Some r" by (rule samplePersons_returns)
next
  assume "\<not> js_lt (Num (LOD_CLAPPER_THRESHOLD K)) (clapperCount st)"
  then show "scheduleBeat_select K rng st s
      = Some (map Some (take (slice_end (length (persons s)) (clapperCount st)) (persons s)), Num 1, s)"
    by (rule select_below_threshold)
next
  assume "js_lt (Num (LOD_CLAPPER_THRESHOLD K)) (clapperCount st)"
  then show "scheduleBeat_select K rng st s
      = map_option
          (\<lambda>(ps, s'). (ps, js_sqrt (js_div (clapperCount st) (Num (real (LOD_SAMPLE_COUNT K)))), s'))
          (samplePersons rng (LOD_SAMPLE_COUNT K) s)"
    by (rule select_above_threshold)
next
  fix ps g s'
  assume a: "length (persons s) = 500 \<and> clapperCount st = Num 500"
    and r: "scheduleBeat_select spec_constants rng st s = Some (ps, g, s')"
  have "js_lt (Num (LOD_CLAPPER_THRESHOLD spec_constants)) (clapperCount st)"
    using a by (simp add: spec_constants_def)
  from select_above_threshold[OF this, of rng s] r
  have sp: "samplePersons rng 40 s = Some (ps, s')"
    and g: "g = js_sqrt (js_div (Num 500) (Num 40))"
    using a by (auto simp: spec_constants_def)
  have c: "40 < length (persons s)" using a by simp
  from samplePersons_distinct[OF assms c sp] obtain idx where
    idx: "length idx = 40" "distinct idx" "in_pool (length (persons s)) idx"
      "ps = map (\<lambda>x. Some (persons s ! nat x)) idx" by blast
  from idx(1,4) show "length ps = 40" by simp
  from g show "g = Num (sqrt (500 / 40))" by simp
  from idx a show "\<exists>idx. distinct idx \<and> in_pool 500 idx
      \<and> ps = map (\<lambda>x. Some (persons s ! nat x)) idx" by auto
qed

lemma sample_indices_done:
  "\<not> length idx < count \<Longrightarrow> sample_indices count len rng i idx = Some (idx, i)"
  by (simp add: sample_indices.simps[of count len rng i idx])

lemma sample_indices_more:
  "length idx < count \<Longrightarrow>
   sample_indices count len rng i idx
   = sample_indices count len rng (Suc i) (set_add idx \<lfloor>rng i * real len\<rfloor>)"
  by (simp add: sample_indices.simps[of count len rng i idx])

theorem lod_selection_witness:
  "unit_draws (\<lambda>n. if n = 1 then 1 / 2 else 0)
   \<and> js_lt (Num (LOD_CLAPPER_THRESHOLD (spec_constants\<lparr>LOD_CLAPPER_THRESHOLD := 2, LOD_SAMPLE_COUNT := 2\<rparr>)))
        (clapperCount (demo_state\<lparr>clapperCount := Num 3\<rparr>))
   \<and> scheduleBeat_select (spec_constants\<lparr>LOD_CLAPPER_THRESHOLD := 2, LOD_SAMPLE_COUNT := 2\<rparr>)
        (\<lambda>n. if n = 1 then 1 / 2 else 0) (demo_state\<lparr>clapperCount := Num 3\<rparr>)
        (demo_engine\<lparr>persons := [demo_person, demo_person\<lparr>variantIndex := 1\<rparr>,
                                   demo_person\<lparr>variantIndex := 2\<rparr>]\<rparr>)
     = Some ([Some demo_person, Some (demo_person\<lparr>variantIndex := 1\<rparr>)], Num (sqrt (3 / 2)),
             demo_engine\<lparr>persons := [demo_person, demo_person\<lparr>variantIndex := 1\<rparr>,
                                      demo_person\<lparr>variantIndex := 2\<rparr>], rngPos := 2\<rparr>)"
proof -
  let ?rng = "\<lambda>n::nat. if n = 1 then 1 / 2 else 0 :: real"
  let ?K = "spec_constants\<lparr>LOD_CLAPPER_THRESHOLD := 2, LOD_SAMPLE_COUNT := 2\<rparr>"
  let ?st = "demo_state\<lparr>clapperCount := Num 3\<rparr>"
  let ?s = "demo_engine\<lparr>persons := [demo_person, demo_person\<lparr>variantIndex := 1\<rparr>,
                                   demo_person\<lparr>variantIndex := 2\<rparr>]\<rparr>"
  have u: "unit_draws ?rng" by (simp add: unit_draws_def)
  have lt: "js_lt (Num (LOD_CLAPPER_THRESHOLD ?K)) (clapperCount ?st)" by simp
  have pos: "rngPos ?s = 0" by (simp add: demo_engine_def constructor_def createContext_def)
  have sp: "samplePersons ?rng 2 ?s
      = Some ([Some demo_person, Some (demo_person\<lparr>variantIndex := 1\<rparr>)], ?s\<lparr>rngPos := 2\<rparr>)"
    by (simp add: samplePersons_def js_index_def pos sample_indices_more sample_indices_done
        set_add_def)
  from lod_selection[OF u, of ?s 2 ?K ?st] lt
  have "scheduleBeat_select ?K ?rng ?st ?s
      = map_option
          (\<lambda>(ps, s'). (ps, js_sqrt (js_div (clapperCount ?st) (Num (real (LOD_SAMPLE_COUNT ?K)))), s'))
          (samplePersons ?rng (LOD_SAMPLE_COUNT ?K) ?s)"
    by blast
  with sp have "scheduleBeat_select ?K ?rng ?st ?s
     = Some ([Some demo_person, Some (demo_person\<lparr>variantIndex := 1\<rparr>)], Num (sqrt (3 / 2)),
             ?s\<lparr>rngPos := 2\<rparr>)" by simp
  with u lt show ?thesis by blast
qed

end
